theory Spec2Isabelle
  imports Complex_Main
begin

section \<open>The Qt objects VncServer.cpp works with\<close>

text \<open>
  The server of \<^verbatim>\<open>src/VncServer.cpp\<close> is a \<^verbatim>\<open>QObject\<close>. Its slots \<^verbatim>\<open>addClient\<close> and
  \<^verbatim>\<open>removeClient\<close> run one at a time on the thread the server lives in;
  \<^verbatim>\<open>updateFrameBuffer\<close> is called directly on the thread that renders, and
  \<^verbatim>\<open>frameBuffer\<close> on the threads of the clients. Each member function is embedded as a
  function on a state record. The record holds the data members of \<^verbatim>\<open>VncServer\<close> and,
  beside them, the Qt objects the functions reach through pointers: the \<^verbatim>\<open>ClientThread\<close>
  objects on the heap, the signal connections, and the list of calls made into Qt
  (\<open>trace\<close>), in the order the code makes them. What threads running at the same time can
  observe of the frame buffer is the subject of the last section of definitions.

  Qt itself is not part of the repository. Its classes are modelled by what the calls in
  this file rely on:
  \<^item> \<^verbatim>\<open>new ClientThread\<close> returns an object distinct from every object created before;
    objects are named by a counter, so a name is never handed out twice;
  \<^item> a \<^verbatim>\<open>QMetaObject::Connection\<close> converts to \<^verbatim>\<open>true\<close> when \<^verbatim>\<open>QObject::connect\<close> made
    the connection and it has not been disconnected: a failed \<^verbatim>\<open>connect\<close> returns a null
    handle and \<^verbatim>\<open>QObject::disconnect(handle)\<close> resets the handle it is given;
  \<^item> the string-based \<^verbatim>\<open>connect\<close> to \<^verbatim>\<open>frameSwapped()\<close> succeeds when the window has that
    signal, that is, when it is a \<^verbatim>\<open>QQuickWindow\<close>;
  \<^item> \<^verbatim>\<open>QImage(size, format)\<close> and \<^verbatim>\<open>qt_gl_read_framebuffer(size, ..)\<close> deliver an image
    of the size asked for (the producer's calls are assumed to succeed).
\<close>

type_synonym qintptr = int
type_synonym thread_ptr = nat
type_synonym conn_id = nat
type_synonym QSize = "int \<times> int"

datatype ConnectionType = AutoConnection | DirectConnection | QueuedConnection

datatype slot = Slot_addClient | Slot_removeClient | Slot_updateFrameBuffer | Slot_quit

text \<open>What \<^verbatim>\<open>sender()\<close> can return inside a slot (\<open>None\<close> is \<^verbatim>\<open>nullptr\<close>: a direct call).\<close>

datatype qobject = QTcpServer_object int | QThread_object thread_ptr | Other_object

datatype image_format = Format_Invalid | Format_RGB32 | Format_ARGB32 | Format_RGBX8888

text \<open>The pixel data of an image: not yet written, or a frame the producer rendered.\<close>

datatype pixels = Uninitialised | Frame nat

record QImage =
  img_size :: QSize
  img_format :: image_format
  img_pixels :: pixels

record QWindow =
  win_size :: QSize
  win_devicePixelRatio :: rat
  win_frame :: nat
  win_read_format :: image_format
  win_inherits_QQuickWindow :: bool

datatype CursorShape = ArrowCursor | WaitCursor | BitmapCursor

record VncCursor =
  cursor_image :: CursorShape

record VncClient =
  vc_socketDescriptor :: qintptr
  vc_disconnected :: "slot list"

record ClientThread =
  m_socketDescriptor :: qintptr
  m_client :: "VncClient option"
  thread_finished :: "slot list"

datatype event =
    Log_created int
  | Log_attached int nat
  | Log_detached nat
  | Window_update
  | Thread_start thread_ptr
  | Thread_quit thread_ptr
  | Thread_wait thread_ptr nat
  | Thread_delete thread_ptr
  | Mutex_lock
  | Mutex_unlock
  | FrameBuffer_alloc QSize
  | FrameBuffer_grab
  | FrameBuffer_copy
  | Thread_markDirty thread_ptr
  | Client_markDirty qintptr

datatype error = Assert_failed | Null_pointer | Dangling_pointer thread_ptr

record VncServer =
  m_window :: "QWindow option"
  m_cursor :: VncCursor
  m_threads :: "thread_ptr list"
  m_grabConnectionId :: "conn_id option"
  m_frameBuffer :: QImage
  tcp_serverPort :: "int option"
  tcp_connectionRequested :: "slot list"
  frameSwapped_connections :: "(conn_id \<times> slot \<times> ConnectionType) list"
  next_conn :: conn_id
  heap :: "thread_ptr \<rightharpoonup> ClientThread"
  next_thread :: thread_ptr
  trace :: "event list"

definition emit :: "event list \<Rightarrow> VncServer \<Rightarrow> VncServer" where
  "emit es s = s\<lparr>trace := trace s @ es\<rparr>"

definition is_log :: "event \<Rightarrow> bool" where
  "is_log e = (case e of Log_created _ \<Rightarrow> True | Log_attached _ _ \<Rightarrow> True
                 | Log_detached _ \<Rightarrow> True | _ \<Rightarrow> False)"

definition is_markDirty :: "event \<Rightarrow> bool" where
  "is_markDirty e = (case e of Thread_markDirty _ \<Rightarrow> True | _ \<Rightarrow> False)"

section \<open>The anonymous namespace: createCursor and ClientThread\<close>

definition createCursor :: "CursorShape \<Rightarrow> VncCursor" where
  "createCursor shape = \<lparr>cursor_image = shape\<rparr>"

text \<open>The constructor of \<^verbatim>\<open>ClientThread\<close>: \<^verbatim>\<open>m_client\<close> starts as \<^verbatim>\<open>nullptr\<close>.\<close>

definition ClientThread_new :: "qintptr \<Rightarrow> ClientThread" where
  "ClientThread_new socketDescriptor =
     \<lparr>m_socketDescriptor = socketDescriptor, m_client = None, thread_finished = []\<rparr>"

text \<open>
  \<^verbatim>\<open>ClientThread::markDirty\<close>: the calls it makes. With \<^verbatim>\<open>m_client\<close> null it makes none;
  otherwise it calls \<^verbatim>\<open>VncClient::markDirty\<close> on the handler.
\<close>

definition ClientThread_markDirty :: "ClientThread \<Rightarrow> event list" where
  "ClientThread_markDirty th =
     (case m_client th of
        None \<Rightarrow> []
      | Some client \<Rightarrow> [Client_markDirty (vc_socketDescriptor client)])"

text \<open>
  \<^verbatim>\<open>ClientThread::run\<close> in two halves, around the event loop \<^verbatim>\<open>QThread::run()\<close>:
  up to \<^verbatim>\<open>m_client = &client\<close>, and from \<^verbatim>\<open>m_client = nullptr\<close> to the end of the scope,
  where the handler on the stack is destroyed.
\<close>

definition ClientThread_run_enter :: "ClientThread \<Rightarrow> ClientThread" where
  "ClientThread_run_enter th =
     (let client = \<lparr>vc_socketDescriptor = m_socketDescriptor th, vc_disconnected = []\<rparr>;
          client = client\<lparr>vc_disconnected := vc_disconnected client @ [Slot_quit]\<rparr>
      in th\<lparr>m_client := Some client\<rparr>)"

definition ClientThread_run_leave :: "ClientThread \<Rightarrow> ClientThread" where
  "ClientThread_run_leave th = th\<lparr>m_client := None\<rparr>"

section \<open>VncServer\<close>

text \<open>
  The constructor. \<open>listen\<close> is the outcome of \<^verbatim>\<open>tcpServer->listen(QHostAddress::Any, port)\<close>:
  \<open>None\<close> when it returns false, otherwise the port the socket then listens on
  (\<^verbatim>\<open>QTcpServer::serverPort\<close>). \<^verbatim>\<open>Q_ASSERT\<close> stops the program when the window is null or is
  not a \<^verbatim>\<open>QQuickWindow\<close>. The log line is written on success only: the \<^verbatim>\<open>if\<close> has no else
  branch.
\<close>

definition VncServer_new :: "int option \<Rightarrow> int \<Rightarrow> QWindow option \<Rightarrow> error + VncServer" where
  "VncServer_new listen port window =
     (case window of
        None \<Rightarrow> Inl Assert_failed
      | Some w \<Rightarrow>
          if \<not> win_inherits_QQuickWindow w then Inl Assert_failed
          else Inr
            \<lparr>m_window = window,
             m_cursor = createCursor ArrowCursor,
             m_threads = [],
             m_grabConnectionId = None,
             m_frameBuffer =
               \<lparr>img_size = (0, 0), img_format = Format_Invalid, img_pixels = Uninitialised\<rparr>,
             tcp_serverPort = listen,
             tcp_connectionRequested = [Slot_addClient],
             frameSwapped_connections = [],
             next_conn = 0,
             heap = Map.empty,
             next_thread = 0,
             trace = (if listen \<noteq> None then [Log_created port] else [])\<rparr>)"

text \<open>
  \<^verbatim>\<open>QObject::connect(m_window, SIGNAL(frameSwapped()), this, SLOT(updateFrameBuffer()),
  Qt::DirectConnection)\<close>, with the handle assigned to \<^verbatim>\<open>m_grabConnectionId\<close>.
\<close>

definition connect_frameSwapped :: "QWindow \<Rightarrow> VncServer \<Rightarrow> VncServer" where
  "connect_frameSwapped w s =
     (if win_inherits_QQuickWindow w
      then s\<lparr>frameSwapped_connections :=
                frameSwapped_connections s @ [(next_conn s, Slot_updateFrameBuffer, DirectConnection)],
              m_grabConnectionId := Some (next_conn s),
              next_conn := Suc (next_conn s)\<rparr>
      else s\<lparr>m_grabConnectionId := None\<rparr>)"

text \<open>\<^verbatim>\<open>QObject::disconnect(m_grabConnectionId)\<close>.\<close>

definition disconnect_grab :: "VncServer \<Rightarrow> VncServer" where
  "disconnect_grab s =
     (case m_grabConnectionId s of
        None \<Rightarrow> s
      | Some c \<Rightarrow>
          s\<lparr>frameSwapped_connections := filter (\<lambda>k. fst k \<noteq> c) (frameSwapped_connections s),
            m_grabConnectionId := None\<rparr>)"

text \<open>
  The render-complete subscription is active when the window's \<^verbatim>\<open>frameSwapped\<close> signal
  is connected to the slot \<^verbatim>\<open>updateFrameBuffer\<close> of this server.
\<close>

definition subscribed :: "VncServer \<Rightarrow> bool" where
  "subscribed s =
     list_ex (\<lambda>k. fst (snd k) = Slot_updateFrameBuffer) (frameSwapped_connections s)"

text \<open>
  A call made on the thread object \<open>thread\<close> changes that object. On a pointer to an
  object that was deleted the call has no defined effect; the functions that make such
  calls check for it first.
\<close>

definition modify_thread :: "thread_ptr \<Rightarrow> (ClientThread \<Rightarrow> ClientThread) \<Rightarrow> VncServer \<Rightarrow> VncServer" where
  "modify_thread thread f s = s\<lparr>heap := (heap s)(thread := map_option f (heap s thread))\<rparr>"

definition addClient :: "qintptr \<Rightarrow> qobject option \<Rightarrow> VncServer \<Rightarrow> VncServer" where
  "addClient fd sender s =
     (let thread = next_thread s;
          s = s\<lparr>heap := (heap s)(thread \<mapsto> ClientThread_new fd),
                 next_thread := Suc thread\<rparr>;
          s = s\<lparr>m_threads := m_threads s @ [thread]\<rparr>;
          s = (case m_window s of
                 None \<Rightarrow> s
               | Some w \<Rightarrow>
                   if m_grabConnectionId s = None
                   then emit [Window_update] (connect_frameSwapped w s)
                   else s);
          s = (case sender of
                 Some (QTcpServer_object serverPort) \<Rightarrow>
                   emit [Log_attached serverPort (length (m_threads s))] s
               | _ \<Rightarrow> s);
          s = modify_thread thread
                (\<lambda>th. th\<lparr>thread_finished := thread_finished th @ [Slot_removeClient]\<rparr>) s
      in emit [Thread_start thread] s)"

definition removeClient :: "qobject option \<Rightarrow> VncServer \<Rightarrow> VncServer" where
  "removeClient sender s =
     (case sender of
        Some (QThread_object thread) \<Rightarrow>
          (let s = s\<lparr>m_threads := remove1 thread (m_threads s)\<rparr>;
               s = (if m_threads s = [] \<and> m_grabConnectionId s \<noteq> None
                    then disconnect_grab s else s);
               s = emit [Thread_quit thread, Thread_wait thread 100] s;
               s = emit [Thread_delete thread] (s\<lparr>heap := (heap s)(thread := None)\<rparr>)
           in emit [Log_detached (length (m_threads s))] s)
      | _ \<Rightarrow> s)"

text \<open>
  \<^verbatim>\<open>QSize operator*(const QSize &, qreal)\<close> rounds each product with \<^verbatim>\<open>qRound\<close>. The
  \<^verbatim>\<open>double\<close> arithmetic is taken as exact arithmetic on rationals.
\<close>

definition qRound :: "rat \<Rightarrow> int" where
  "qRound d = \<lfloor>d + 1 / 2\<rfloor>"

definition QSize_times :: "QSize \<Rightarrow> rat \<Rightarrow> QSize" where
  "QSize_times sz c = (qRound (of_int (fst sz) * c), qRound (of_int (snd sz) * c))"

definition QImage_new :: "QSize \<Rightarrow> image_format \<Rightarrow> QImage" where
  "QImage_new sz format = \<lparr>img_size = sz, img_format = format, img_pixels = Uninitialised\<rparr>"

text \<open>
  \<^verbatim>\<open>qt_gl_read_framebuffer(size, alpha_format, include_alpha)\<close> reads the frame the
  current OpenGL context shows, here the frame of the window being grabbed.
\<close>

definition qt_gl_read_framebuffer :: "QWindow \<Rightarrow> QSize \<Rightarrow> bool \<Rightarrow> bool \<Rightarrow> QImage" where
  "qt_gl_read_framebuffer w sz alpha_format include_alpha =
     \<lparr>img_size = sz,
      img_format = (if include_alpha then Format_ARGB32 else win_read_format w),
      img_pixels = Frame (win_frame w)\<rparr>"

text \<open>\<^verbatim>\<open>QImage::convertTo\<close> leaves the image alone when the format is invalid.\<close>

definition convertTo :: "image_format \<Rightarrow> QImage \<Rightarrow> QImage" where
  "convertTo format img = (if format = Format_Invalid then img else img\<lparr>img_format := format\<rparr>)"

definition grabWindow :: "QWindow \<Rightarrow> QImage \<Rightarrow> QImage" where
  "grabWindow w frameBuffer =
     (let format = img_format frameBuffer;
          frameBuffer = qt_gl_read_framebuffer w (img_size frameBuffer) False False
      in convertTo format frameBuffer)"

text \<open>
  \<^verbatim>\<open>updateFrameBuffer\<close>, statement by statement. Inside the scope of the
  \<^verbatim>\<open>QMutexLocker\<close>: the size test with the reallocation, then \<^verbatim>\<open>grabWindow\<close>. After the
  scope: the loop over \<^verbatim>\<open>m_threads\<close>. The local \<^verbatim>\<open>rect\<close> built between the two is never
  used and is left out.
\<close>

definition resize_frameBuffer :: "QWindow \<Rightarrow> VncServer \<Rightarrow> VncServer" where
  "resize_frameBuffer w s =
     (let sz = QSize_times (win_size w) (win_devicePixelRatio w)
      in if sz \<noteq> img_size (m_frameBuffer s)
         then emit [FrameBuffer_alloc sz] (s\<lparr>m_frameBuffer := QImage_new sz Format_RGB32\<rparr>)
         else s)"

definition grab_frameBuffer :: "QWindow \<Rightarrow> VncServer \<Rightarrow> VncServer" where
  "grab_frameBuffer w s =
     emit [FrameBuffer_grab] (s\<lparr>m_frameBuffer := grabWindow w (m_frameBuffer s)\<rparr>)"

fun notify_threads :: "thread_ptr list \<Rightarrow> VncServer \<Rightarrow> error + VncServer" where
  "notify_threads [] s = Inr s"
| "notify_threads (thread # threads) s =
     (case heap s thread of
        None \<Rightarrow> Inl (Dangling_pointer thread)
      | Some clientThread \<Rightarrow>
          notify_threads threads
            (emit (Thread_markDirty thread # ClientThread_markDirty clientThread) s))"

text \<open>The calls \<^verbatim>\<open>updateFrameBuffer\<close> makes for one worker of its loop: \<^verbatim>\<open>markDirty\<close> on the
  worker, and what that call makes in turn.\<close>

definition markDirty_calls :: "VncServer \<Rightarrow> thread_ptr \<Rightarrow> event list" where
  "markDirty_calls s thread =
     (case heap s thread of
        None \<Rightarrow> []
      | Some clientThread \<Rightarrow> Thread_markDirty thread # ClientThread_markDirty clientThread)"

definition updateFrameBuffer :: "VncServer \<Rightarrow> error + VncServer" where
  "updateFrameBuffer s =
     (case m_window s of
        None \<Rightarrow> Inl Null_pointer
      | Some w \<Rightarrow>
          (let s = emit [Mutex_lock] s;
               s = resize_frameBuffer w s;
               s = grab_frameBuffer w s;
               s = emit [Mutex_unlock] s
           in notify_threads (m_threads s) s))"

definition window :: "VncServer \<Rightarrow> QWindow option" where
  "window s = m_window s"

definition frameBuffer :: "VncServer \<Rightarrow> QImage \<times> VncServer" where
  "frameBuffer s =
     (let s = emit [Mutex_lock] s;
          fb = m_frameBuffer s;
          s = emit [FrameBuffer_copy] s
      in (fb, emit [Mutex_unlock] s))"

definition cursor :: "VncServer \<Rightarrow> VncCursor" where
  "cursor s = m_cursor s"

text \<open>
  \<^verbatim>\<open>TcpServer::incomingConnection\<close> emits \<^verbatim>\<open>connectionRequested\<close>, which the constructor
  connected to \<^verbatim>\<open>addClient\<close>. Qt calls it for each connection that arrives at a listening
  socket; a socket that does not listen receives none.
\<close>

definition incomingConnection :: "int \<Rightarrow> qintptr \<Rightarrow> VncServer \<Rightarrow> VncServer" where
  "incomingConnection serverPort socketDescriptor s =
     (if Slot_addClient \<in> set (tcp_connectionRequested s)
      then addClient socketDescriptor (Some (QTcpServer_object serverPort)) s
      else s)"

definition connection_arrives :: "VncServer \<Rightarrow> qintptr \<Rightarrow> VncServer" where
  "connection_arrives s socketDescriptor =
     (case tcp_serverPort s of
        None \<Rightarrow> s
      | Some serverPort \<Rightarrow> incomingConnection serverPort socketDescriptor s)"

section \<open>Sequences of calls\<close>

datatype op = AddClient qintptr "qobject option" | RemoveClient "qobject option"

fun exec :: "op list \<Rightarrow> VncServer \<Rightarrow> VncServer" where
  "exec [] s = s"
| "exec (AddClient fd sender # ops) s = exec ops (addClient fd sender s)"
| "exec (RemoveClient sender # ops) s = exec ops (removeClient sender s)"

text \<open>The signal \<^verbatim>\<open>QThread::finished\<close> of a worker: every slot connected to it runs, with
  the worker as \<^verbatim>\<open>sender()\<close>.\<close>

definition thread_finishes :: "thread_ptr \<Rightarrow> VncServer \<Rightarrow> VncServer" where
  "thread_finishes thread s =
     (case heap s thread of
        None \<Rightarrow> s
      | Some th \<Rightarrow>
          if Slot_removeClient \<in> set (thread_finished th)
          then removeClient (Some (QThread_object thread)) s
          else s)"

text \<open>How many calls of a sequence add a worker, and how many remove one that is in the set
  when the call is made.\<close>

fun adds :: "op list \<Rightarrow> nat" where
  "adds [] = 0"
| "adds (AddClient fd sender # ops) = Suc (adds ops)"
| "adds (RemoveClient sender # ops) = adds ops"

fun matches :: "qobject option \<Rightarrow> VncServer \<Rightarrow> bool" where
  "matches (Some (QThread_object thread)) s = (thread \<in> set (m_threads s))"
| "matches _ s = False"

fun matched_removes :: "op list \<Rightarrow> VncServer \<Rightarrow> nat" where
  "matched_removes [] s = 0"
| "matched_removes (AddClient fd sender # ops) s = matched_removes ops (addClient fd sender s)"
| "matched_removes (RemoveClient sender # ops) s =
     (if matches sender s then 1 else 0) + matched_removes ops (removeClient sender s)"

text \<open>Every worker a sequence adds is the sender of a later removal. \<open>n\<close> names the worker
  the next \<^verbatim>\<open>new\<close> creates.\<close>

fun all_removed :: "op list \<Rightarrow> thread_ptr \<Rightarrow> bool" where
  "all_removed [] n = True"
| "all_removed (AddClient fd sender # ops) n =
     (RemoveClient (Some (QThread_object n)) \<in> set ops \<and> all_removed ops (Suc n))"
| "all_removed (RemoveClient sender # ops) n = all_removed ops n"

section \<open>The frame buffer under its mutex, one statement at a time\<close>

text \<open>
  \<^verbatim>\<open>updateFrameBuffer\<close> runs on the thread of the scene graph and \<^verbatim>\<open>frameBuffer\<close> on the
  threads of the clients. To see what a reader can observe, both are cut at their
  statements and the statements of different threads are interleaved. A
  \<^verbatim>\<open>QMutexLocker\<close> that finds \<^verbatim>\<open>m_frameBufferMutex\<close> taken waits: its thread makes no
  step. A null \<^verbatim>\<open>m_window\<close> or a deleted worker stops the program: no thread makes a
  step any more.
\<close>

datatype mutex_owner = Capture_thread | Reader_thread nat

datatype capture_pc =
  Capture_idle | Capture_locked | Capture_sized | Capture_grabbed | Capture_unlocked

datatype reader_pc = Reader_idle | Reader_locked | Reader_copied QImage

record system =
  server :: VncServer
  m_frameBufferMutex :: "mutex_owner option"
  capture :: capture_pc
  reader :: "nat \<Rightarrow> reader_pc"
  crashed :: bool
  returned :: "QImage list"
  released :: "QImage list"

datatype action =
    Capture_step
  | Reader_step nat
  | Window_change QWindow
  | Server_call op

definition system_of :: "VncServer \<Rightarrow> system" where
  "system_of s =
     \<lparr>server = s, m_frameBufferMutex = None, capture = Capture_idle,
      reader = (\<lambda>r. Reader_idle), crashed = False, returned = [],
      released = [m_frameBuffer s]\<rparr>"

definition capture_step :: "system \<Rightarrow> system" where
  "capture_step sys =
     (case capture sys of
        Capture_idle \<Rightarrow>
          if m_frameBufferMutex sys = None
          then sys\<lparr>server := emit [Mutex_lock] (server sys),
                   m_frameBufferMutex := Some Capture_thread,
                   capture := Capture_locked\<rparr>
          else sys
      | Capture_locked \<Rightarrow>
          (case m_window (server sys) of
             None \<Rightarrow> sys\<lparr>crashed := True\<rparr>
           | Some w \<Rightarrow>
               sys\<lparr>server := resize_frameBuffer w (server sys), capture := Capture_sized\<rparr>)
      | Capture_sized \<Rightarrow>
          (case m_window (server sys) of
             None \<Rightarrow> sys\<lparr>crashed := True\<rparr>
           | Some w \<Rightarrow>
               sys\<lparr>server := grab_frameBuffer w (server sys), capture := Capture_grabbed\<rparr>)
      | Capture_grabbed \<Rightarrow>
          sys\<lparr>server := emit [Mutex_unlock] (server sys),
               m_frameBufferMutex := None,
               capture := Capture_unlocked,
               released := released sys @ [m_frameBuffer (server sys)]\<rparr>
      | Capture_unlocked \<Rightarrow>
          (case notify_threads (m_threads (server sys)) (server sys) of
             Inl e \<Rightarrow> sys\<lparr>crashed := True\<rparr>
           | Inr s \<Rightarrow> sys\<lparr>server := s, capture := Capture_idle\<rparr>))"

definition reader_step :: "nat \<Rightarrow> system \<Rightarrow> system" where
  "reader_step r sys =
     (case reader sys r of
        Reader_idle \<Rightarrow>
          if m_frameBufferMutex sys = None
          then sys\<lparr>server := emit [Mutex_lock] (server sys),
                   m_frameBufferMutex := Some (Reader_thread r),
                   reader := (reader sys)(r := Reader_locked)\<rparr>
          else sys
      | Reader_locked \<Rightarrow>
          sys\<lparr>server := emit [FrameBuffer_copy] (server sys),
               reader := (reader sys)(r := Reader_copied (m_frameBuffer (server sys)))\<rparr>
      | Reader_copied fb \<Rightarrow>
          sys\<lparr>server := emit [Mutex_unlock] (server sys),
               m_frameBufferMutex := None,
               reader := (reader sys)(r := Reader_idle),
               returned := returned sys @ [fb]\<rparr>)"

definition step :: "system \<Rightarrow> action \<Rightarrow> system" where
  "step sys a =
     (if crashed sys then sys
      else case a of
        Capture_step \<Rightarrow> capture_step sys
      | Reader_step r \<Rightarrow> reader_step r sys
      | Window_change w \<Rightarrow>
          (case m_window (server sys) of
             None \<Rightarrow> sys
           | Some _ \<Rightarrow> sys\<lparr>server := (server sys)\<lparr>m_window := Some w\<rparr>\<rparr>)
      | Server_call c \<Rightarrow> sys\<lparr>server := exec [c] (server sys)\<rparr>)"

definition run :: "action list \<Rightarrow> system \<Rightarrow> system" where
  "run acts sys = foldl step sys acts"

section \<open>Invariants\<close>

text \<open>
  What every state reached from the constructor by \<^verbatim>\<open>addClient\<close> and \<^verbatim>\<open>removeClient\<close>
  satisfies: the window is there, no worker is in \<^verbatim>\<open>m_threads\<close> twice, every worker in it is
  a live object created before, and the handle \<^verbatim>\<open>m_grabConnectionId\<close> is set exactly while
  there are workers, naming the one direct connection of \<^verbatim>\<open>frameSwapped\<close>.
\<close>

definition server_inv :: "VncServer \<Rightarrow> bool" where
  "server_inv s \<longleftrightarrow>
     (\<exists>w. m_window s = Some w \<and> win_inherits_QQuickWindow w) \<and>
     distinct (m_threads s) \<and>
     (\<forall>t \<in> set (m_threads s). t < next_thread s \<and> heap s t \<noteq> None) \<and>
     (case m_grabConnectionId s of
        None \<Rightarrow> frameSwapped_connections s = [] \<and> m_threads s = []
      | Some c \<Rightarrow>
          frameSwapped_connections s = [(c, Slot_updateFrameBuffer, DirectConnection)] \<and>
          m_threads s \<noteq> [])"

text \<open>
  The invariant of the interleaved runs. The capture holds the mutex exactly while it is
  between its lock and its unlock; a reader holds it exactly while it is not idle; outside
  the capture's critical section the buffer is the one the last unlock left; and a reader's
  copy is that buffer.
\<close>

fun in_critical_section :: "capture_pc \<Rightarrow> bool" where
  "in_critical_section Capture_idle = False"
| "in_critical_section Capture_locked = True"
| "in_critical_section Capture_sized = True"
| "in_critical_section Capture_grabbed = True"
| "in_critical_section Capture_unlocked = False"

definition fb_inv :: "system \<Rightarrow> bool" where
  "fb_inv sys \<longleftrightarrow>
     released sys \<noteq> [] \<and>
     set (returned sys) \<subseteq> set (released sys) \<and>
     (\<forall>img \<in> set (tl (released sys)). img_pixels img \<noteq> Uninitialised) \<and>
     in_critical_section (capture sys) = (m_frameBufferMutex sys = Some Capture_thread) \<and>
     (\<not> in_critical_section (capture sys) \<longrightarrow>
        m_frameBuffer (server sys) = last (released sys)) \<and>
     (capture sys = Capture_grabbed \<longrightarrow>
        img_pixels (m_frameBuffer (server sys)) \<noteq> Uninitialised) \<and>
     (\<forall>r. (reader sys r = Reader_idle) = (m_frameBufferMutex sys \<noteq> Some (Reader_thread r))) \<and>
     (\<forall>r fb. reader sys r = Reader_copied fb \<longrightarrow> fb = last (released sys))"

section \<open>A server to try things on\<close>

text \<open>An 800 by 600 window at scale 1, and the server built on it that listens on 5999.\<close>

definition example_window :: QWindow where
  "example_window =
     \<lparr>win_size = (800, 600), win_devicePixelRatio = 1, win_frame = 7,
      win_read_format = Format_RGBX8888, win_inherits_QQuickWindow = True\<rparr>"

definition example_server :: VncServer where
  "example_server = projr (VncServer_new (Some 5999) 5999 (Some example_window))"

text \<open>The same server when its socket could not be bound.\<close>

definition inert_server :: VncServer where
  "inert_server = projr (VncServer_new None 5999 (Some example_window))"

text \<open>The example server with two workers, the first of them inside its event loop.\<close>

definition two_clients :: VncServer where
  "two_clients =
     modify_thread 0 ClientThread_run_enter
       (exec [AddClient 11 None, AddClient 12 None] example_server)"

lemmas eval_defs = example_server_def example_window_def VncServer_new_def createCursor_def
  addClient_def removeClient_def emit_def connect_frameSwapped_def disconnect_grab_def
  modify_thread_def ClientThread_new_def subscribed_def Let_def

section \<open>The invariant holds\<close>

lemma server_inv_new: "VncServer_new listen port win = Inr s \<Longrightarrow> server_inv s"
  by (auto simp: VncServer_new_def server_inv_def split: option.splits if_splits)

lemma server_inv_addClient: "server_inv s \<Longrightarrow> server_inv (addClient fd sender s)"
  by (auto simp: server_inv_def addClient_def Let_def emit_def connect_frameSwapped_def
      modify_thread_def less_Suc_eq split: option.splits qobject.splits)

lemma server_inv_removeClient: "server_inv s \<Longrightarrow> server_inv (removeClient sender s)"
  by (auto simp: server_inv_def removeClient_def Let_def emit_def disconnect_grab_def
      split: option.splits qobject.splits)

lemma server_inv_exec: "server_inv s \<Longrightarrow> server_inv (exec ops s)"
  by (induction ops s rule: exec.induct) (simp_all add: server_inv_addClient server_inv_removeClient)

lemma server_inv_subscribed: "server_inv s \<Longrightarrow> subscribed s \<longleftrightarrow> m_threads s \<noteq> []"
  by (auto simp: server_inv_def subscribed_def split: option.splits)

lemma example_server_new:
  "VncServer_new (Some 5999) 5999 (Some example_window) = Inr example_server"
  by (simp add: example_server_def VncServer_new_def example_window_def)

lemma two_clients_state:
  "m_window two_clients = Some example_window"
  "m_threads two_clients = [0, 1]"
  "heap two_clients 0 = Some \<lparr>m_socketDescriptor = 11,
      m_client = Some \<lparr>vc_socketDescriptor = 11, vc_disconnected = [Slot_quit]\<rparr>,
      thread_finished = [Slot_removeClient]\<rparr>"
  "heap two_clients (Suc 0) = Some \<lparr>m_socketDescriptor = 12, m_client = None,
      thread_finished = [Slot_removeClient]\<rparr>"
  "img_size (m_frameBuffer two_clients) = (0, 0)"
  "trace two_clients = [Log_created 5999, Window_update, Thread_start 0, Thread_start 1]"
  by (simp_all add: two_clients_def eval_defs ClientThread_run_enter_def)

section \<open>The connection set and the subscription\<close>

lemma m_threads_addClient [simp]:
  "m_threads (addClient fd sender s) = m_threads s @ [next_thread s]"
  by (simp add: addClient_def Let_def emit_def connect_frameSwapped_def modify_thread_def
      split: option.splits qobject.splits)

lemma next_thread_addClient [simp]:
  "next_thread (addClient fd sender s) = Suc (next_thread s)"
  by (simp add: addClient_def Let_def emit_def connect_frameSwapped_def modify_thread_def
      split: option.splits qobject.splits)

lemma m_threads_removeClient:
  "m_threads (removeClient sender s) =
     (case sender of Some (QThread_object thread) \<Rightarrow> remove1 thread (m_threads s)
      | _ \<Rightarrow> m_threads s)"
  by (simp add: removeClient_def Let_def emit_def disconnect_grab_def
      split: option.splits qobject.splits)

lemma next_thread_removeClient [simp]:
  "next_thread (removeClient sender s) = next_thread s"
  by (simp add: removeClient_def Let_def emit_def disconnect_grab_def
      split: option.splits qobject.splits)

lemma length_removeClient:
  "length (m_threads (removeClient sender s)) + (if matches sender s then 1 else 0) =
     length (m_threads s)"
proof (cases sender)
  case None
  then show ?thesis by (simp add: m_threads_removeClient)
next
  case (Some obj)
  then show ?thesis
  proof (cases obj)
    case (QThread_object thread)
    with Some show ?thesis
      using length_pos_if_in_set [of thread "m_threads s"]
      by (auto simp: m_threads_removeClient length_remove1)
  qed (simp_all add: m_threads_removeClient)
qed

lemma length_exec:
  "length (m_threads (exec ops s)) + matched_removes ops s = length (m_threads s) + adds ops"
proof (induction ops s rule: exec.induct)
  case (3 sender ops s)
  from length_removeClient [of sender s] "3.IH" show ?case by simp
qed simp_all

text \<open>A worker that is not in the set and was created before does not come back.\<close>

lemma exec_stays_out:
  "thread \<notin> set (m_threads s) \<Longrightarrow> thread < next_thread s \<Longrightarrow>
     thread \<notin> set (m_threads (exec ops s))"
proof (induction ops s rule: exec.induct)
  case (3 sender ops s)
  have "thread \<notin> set (m_threads (removeClient sender s))"
    using "3.prems"(1) by (auto simp: m_threads_removeClient split: option.splits qobject.splits
        dest: notin_set_remove1)
  with 3 show ?case by simp
qed auto

lemma exec_removed_out:
  "server_inv s \<Longrightarrow> thread < next_thread s \<Longrightarrow>
     RemoveClient (Some (QThread_object thread)) \<in> set ops \<Longrightarrow>
     thread \<notin> set (m_threads (exec ops s))"
proof (induction ops s rule: exec.induct)
  case (2 fd sender ops s)
  then show ?case by (simp add: server_inv_addClient)
next
  case (3 sender ops s)
  show ?case
  proof (cases "sender = Some (QThread_object thread)")
    case True
    have "distinct (m_threads s)" using "3.prems"(1) by (simp add: server_inv_def)
    then have "thread \<notin> set (m_threads (removeClient sender s))"
      using True by (simp add: m_threads_removeClient)
    then show ?thesis using "3.prems"(2) by (simp add: exec_stays_out)
  next
    case False
    with 3 show ?thesis by (simp add: server_inv_removeClient)
  qed
qed simp

lemma exec_all_removed:
  "server_inv s \<Longrightarrow> all_removed ops (next_thread s) \<Longrightarrow>
     set (m_threads (exec ops s)) \<subseteq> set (m_threads s)"
proof (induction ops s rule: exec.induct)
  case (2 fd sender ops s)
  let ?s = "addClient fd sender s"
  have inv: "server_inv ?s" using "2.prems"(1) by (rule server_inv_addClient)
  have "set (m_threads (exec ops ?s)) \<subseteq> set (m_threads ?s)"
    using "2.IH" inv "2.prems"(2) by simp
  moreover have "next_thread s \<notin> set (m_threads (exec ops ?s))"
    using exec_removed_out [OF inv, of "next_thread s" ops] "2.prems"(2) by simp
  ultimately show ?case by auto
next
  case (3 sender ops s)
  have "set (m_threads (exec ops (removeClient sender s))) \<subseteq> set (m_threads (removeClient sender s))"
    using 3 by (simp add: server_inv_removeClient)
  moreover have "set (m_threads (removeClient sender s)) \<subseteq> set (m_threads s)"
    by (auto simp: m_threads_removeClient split: option.splits qobject.splits
        dest: set_remove1_subset [THEN subsetD])
  ultimately show ?case by auto
qed simp

text \<open>
  C1. After every sequence of \<^verbatim>\<open>addClient\<close> and \<^verbatim>\<open>removeClient\<close> calls on a constructed
  server, so after each single call, the window's \<^verbatim>\<open>frameSwapped\<close> signal is connected to
  \<^verbatim>\<open>updateFrameBuffer\<close> if and only if \<^verbatim>\<open>m_threads\<close> is not empty. This covers a server
  whose set emptied and then received a new connection.
\<close>

theorem subscription_iff_connections:
  assumes "VncServer_new listen port win = Inr s0"
  shows "subscribed (exec ops s0) \<longleftrightarrow> m_threads (exec ops s0) \<noteq> []"
  using assms by (simp add: server_inv_new server_inv_exec server_inv_subscribed)

theorem subscription_iff_connections_witness:
  "VncServer_new (Some 5999) 5999 (Some example_window) = Inr example_server \<and>
   subscribed (exec [AddClient 11 None, AddClient 12 None] example_server) \<and>
   \<not> subscribed (exec [AddClient 11 None, AddClient 12 None,
        RemoveClient (Some (QThread_object 0)), RemoveClient (Some (QThread_object 1))]
        example_server) \<and>
   subscribed (exec [AddClient 11 None, RemoveClient (Some (QThread_object 0)),
        AddClient 12 None] example_server)"
  using subscription_iff_connections [OF example_server_new,
      of "[AddClient 11 None, AddClient 12 None]"]
    subscription_iff_connections [OF example_server_new,
      of "[AddClient 11 None, AddClient 12 None,
        RemoveClient (Some (QThread_object 0)), RemoveClient (Some (QThread_object 1))]"]
    subscription_iff_connections [OF example_server_new,
      of "[AddClient 11 None, RemoveClient (Some (QThread_object 0)), AddClient 12 None]"]
  by (simp add: eval_defs)

text \<open>
  C9. After any sequence of \<^verbatim>\<open>addClient\<close> and \<^verbatim>\<open>removeClient\<close> calls on a constructed
  server the size of \<^verbatim>\<open>m_threads\<close> is the number of adds minus the number of removes whose
  sender was in the set; the set is empty when every worker added is the sender of a
  later remove; and no worker is in it twice.
\<close>

theorem connection_set_size:
  assumes "VncServer_new listen port win = Inr s0"
  shows "int (length (m_threads (exec ops s0))) = int (adds ops) - int (matched_removes ops s0) \<and>
         (all_removed ops 0 \<longrightarrow> m_threads (exec ops s0) = []) \<and>
         distinct (m_threads (exec ops s0))"
proof -
  have inv: "server_inv s0" using assms by (rule server_inv_new)
  have init: "m_threads s0 = []" "next_thread s0 = 0"
    using assms by (auto simp: VncServer_new_def split: option.splits if_splits)
  have "int (length (m_threads (exec ops s0))) = int (adds ops) - int (matched_removes ops s0)"
    using length_exec [of ops s0] init by simp
  moreover have "all_removed ops 0 \<longrightarrow> m_threads (exec ops s0) = []"
    using exec_all_removed [OF inv, of ops] init by simp
  moreover have "distinct (m_threads (exec ops s0))"
    using server_inv_exec [OF inv, of ops] by (simp add: server_inv_def)
  ultimately show ?thesis by simp
qed

theorem connection_set_size_witness:
  "VncServer_new (Some 5999) 5999 (Some example_window) = Inr example_server \<and>
   all_removed [AddClient 11 None, AddClient 12 None, RemoveClient (Some (QThread_object 0)),
      RemoveClient (Some (QThread_object 5)), RemoveClient (Some (QThread_object 1))] 0 \<and>
   adds [AddClient 11 None, AddClient 12 None, RemoveClient (Some (QThread_object 0)),
      RemoveClient (Some (QThread_object 5)), RemoveClient (Some (QThread_object 1))] = 2 \<and>
   matched_removes [AddClient 11 None, AddClient 12 None, RemoveClient (Some (QThread_object 0)),
      RemoveClient (Some (QThread_object 5)), RemoveClient (Some (QThread_object 1))]
      example_server = 2 \<and>
   m_threads (exec [AddClient 11 None, AddClient 12 None, RemoveClient (Some (QThread_object 0)),
      RemoveClient (Some (QThread_object 5)), RemoveClient (Some (QThread_object 1))]
      example_server) = []"
  using connection_set_size [OF example_server_new,
      of "[AddClient 11 None, AddClient 12 None, RemoveClient (Some (QThread_object 0)),
      RemoveClient (Some (QThread_object 5)), RemoveClient (Some (QThread_object 1))]"]
  by (simp add: eval_defs)



section \<open>The effects of single calls\<close>



lemma addClient_inv_effects:
  assumes "server_inv s"
  shows "m_threads (addClient fd sender s) = m_threads s @ [next_thread s] \<and>
     next_thread s \<notin> set (m_threads s) \<and>
     heap (addClient fd sender s) (next_thread s) =
       Some \<lparr>m_socketDescriptor = fd, m_client = None, thread_finished = [Slot_removeClient]\<rparr> \<and>
     thread_finishes (next_thread s) (addClient fd sender s) =
       removeClient (Some (QThread_object (next_thread s))) (addClient fd sender s) \<and>
     frameSwapped_connections (addClient fd sender s) =
       (if m_threads s = [] then [(next_conn s, Slot_updateFrameBuffer, DirectConnection)]
        else frameSwapped_connections s) \<and>
     trace (addClient fd sender s) =
       trace s @ (if m_threads s = [] then [Window_update] else []) @
       (case sender of
          Some (QTcpServer_object serverPort) \<Rightarrow>
            [Log_attached serverPort (Suc (length (m_threads s)))]
        | _ \<Rightarrow> []) @
       [Thread_start (next_thread s)]"
proof -
  from assms obtain w where w: "m_window s = Some w" "win_inherits_QQuickWindow w"
    by (auto simp: server_inv_def)
  from assms have fresh: "next_thread s \<notin> set (m_threads s)"
    by (auto simp: server_inv_def)
  from assms have handle: "m_grabConnectionId s = None \<longleftrightarrow> m_threads s = []"
    by (auto simp: server_inv_def split: option.splits)
  have heap: "heap (addClient fd sender s) (next_thread s) =
       Some \<lparr>m_socketDescriptor = fd, m_client = None, thread_finished = [Slot_removeClient]\<rparr>"
    by (simp add: addClient_def Let_def emit_def connect_frameSwapped_def modify_thread_def
        ClientThread_new_def split: option.splits qobject.splits)
  have conns: "frameSwapped_connections (addClient fd sender s) =
       (if m_threads s = [] then [(next_conn s, Slot_updateFrameBuffer, DirectConnection)]
        else frameSwapped_connections s)"
    using assms w handle
    by (auto simp: addClient_def Let_def emit_def connect_frameSwapped_def modify_thread_def
        server_inv_def split: option.splits qobject.splits)
  have tr: "trace (addClient fd sender s) =
       trace s @ (if m_threads s = [] then [Window_update] else []) @
       (case sender of
          Some (QTcpServer_object serverPort) \<Rightarrow>
            [Log_attached serverPort (Suc (length (m_threads s)))]
        | _ \<Rightarrow> []) @
       [Thread_start (next_thread s)]"
    using w handle
    by (auto simp: addClient_def Let_def emit_def connect_frameSwapped_def modify_thread_def
        split: option.splits qobject.splits)
  show ?thesis using fresh heap conns tr by (simp add: thread_finishes_def)
qed

lemma removeClient_inv_effects:
  assumes "server_inv s" and "thread \<in> set (m_threads s)"
  shows "m_threads (removeClient (Some (QThread_object thread)) s) = remove1 thread (m_threads s) \<and>
     thread \<notin> set (m_threads (removeClient (Some (QThread_object thread)) s)) \<and>
     subscribed s \<and>
     (\<not> subscribed (removeClient (Some (QThread_object thread)) s) \<longleftrightarrow>
        m_threads (removeClient (Some (QThread_object thread)) s) = []) \<and>
     heap (removeClient (Some (QThread_object thread)) s) thread = None \<and>
     trace (removeClient (Some (QThread_object thread)) s) =
       trace s @ [Thread_quit thread, Thread_wait thread 100, Thread_delete thread,
                  Log_detached (length (m_threads (removeClient (Some (QThread_object thread)) s)))]"
proof -
  let ?s' = "removeClient (Some (QThread_object thread)) s"
  have inv': "server_inv ?s'" using assms(1) by (rule server_inv_removeClient)
  have d: "distinct (m_threads s)" using assms(1) by (simp add: server_inv_def)
  have ths: "m_threads ?s' = remove1 thread (m_threads s)"
    by (simp add: m_threads_removeClient)
  have out: "thread \<notin> set (m_threads ?s')" using d by (simp add: ths)
  have sub: "subscribed s" using assms by (auto simp: server_inv_subscribed)
  have sub': "\<not> subscribed ?s' \<longleftrightarrow> m_threads ?s' = []"
    using inv' by (simp add: server_inv_subscribed)
  have hp: "heap ?s' thread = None"
    by (simp add: removeClient_def Let_def emit_def disconnect_grab_def split: option.splits)
  have tr: "trace ?s' = trace s @ [Thread_quit thread, Thread_wait thread 100,
      Thread_delete thread, Log_detached (length (remove1 thread (m_threads s)))]"
    by (simp add: removeClient_def Let_def emit_def disconnect_grab_def split: option.splits)
  show ?thesis using ths out sub sub' hp tr by simp
qed

text \<open>
  C2. A call of \<^verbatim>\<open>addClient\<close> on a server reached from the constructor appends a worker
  that was not in \<^verbatim>\<open>m_threads\<close>, created for the descriptor given; connects the worker's
  \<^verbatim>\<open>finished\<close> signal to \<^verbatim>\<open>removeClient\<close>, so that the worker finishing runs
  \<^verbatim>\<open>removeClient\<close> with the worker as sender; and starts it. When the set was empty before
  the call, it connects \<^verbatim>\<open>frameSwapped\<close> to \<^verbatim>\<open>updateFrameBuffer\<close> with a direct connection
  and asks the window for one update; otherwise the connections stay as they are and no
  update is asked for.
\<close>

theorem addClient_inserts_and_subscribes:
  assumes "VncServer_new listen port win = Inr s0"
  shows "(let s = exec ops s0; thread = next_thread s; s' = addClient fd sender s in
     m_threads s' = m_threads s @ [thread] \<and>
     thread \<notin> set (m_threads s) \<and>
     heap s' thread =
       Some \<lparr>m_socketDescriptor = fd, m_client = None, thread_finished = [Slot_removeClient]\<rparr> \<and>
     thread_finishes thread s' = removeClient (Some (QThread_object thread)) s' \<and>
     frameSwapped_connections s' =
       (if m_threads s = [] then [(next_conn s, Slot_updateFrameBuffer, DirectConnection)]
        else frameSwapped_connections s) \<and>
     trace s' =
       trace s @ (if m_threads s = [] then [Window_update] else []) @
       (case sender of
          Some (QTcpServer_object serverPort) \<Rightarrow>
            [Log_attached serverPort (Suc (length (m_threads s)))]
        | _ \<Rightarrow> []) @
       [Thread_start thread])"
  unfolding Let_def
  by (rule addClient_inv_effects) (rule server_inv_exec [OF server_inv_new [OF assms]])

theorem addClient_inserts_and_subscribes_witness:
  "VncServer_new (Some 5999) 5999 (Some example_window) = Inr example_server \<and>
   m_threads (addClient 11 (Some (QTcpServer_object 5999)) example_server) = [0] \<and>
   frameSwapped_connections (addClient 11 (Some (QTcpServer_object 5999)) example_server) =
     [(0, Slot_updateFrameBuffer, DirectConnection)] \<and>
   trace (addClient 11 (Some (QTcpServer_object 5999)) example_server) =
     [Log_created 5999, Window_update, Log_attached 5999 1, Thread_start 0] \<and>
   m_threads (addClient 12 (Some (QTcpServer_object 5999))
     (exec [AddClient 11 (Some (QTcpServer_object 5999))] example_server)) = [0, 1] \<and>
   frameSwapped_connections (addClient 12 (Some (QTcpServer_object 5999))
     (exec [AddClient 11 (Some (QTcpServer_object 5999))] example_server)) =
     [(0, Slot_updateFrameBuffer, DirectConnection)] \<and>
   trace (addClient 12 (Some (QTcpServer_object 5999))
     (exec [AddClient 11 (Some (QTcpServer_object 5999))] example_server)) =
     [Log_created 5999, Window_update, Log_attached 5999 1, Thread_start 0,
      Log_attached 5999 2, Thread_start 1]"
  using addClient_inserts_and_subscribes [OF example_server_new,
      of "[]" 11 "Some (QTcpServer_object 5999)"]
    addClient_inserts_and_subscribes [OF example_server_new,
      of "[AddClient 11 (Some (QTcpServer_object 5999))]" 12 "Some (QTcpServer_object 5999)"]
  by (simp add: eval_defs)

text \<open>
  C3. A call of \<^verbatim>\<open>removeClient\<close> whose sender is a worker in \<^verbatim>\<open>m_threads\<close>, on a server
  reached from the constructor: the worker is no longer in the set; the subscription,
  active before, is cancelled exactly when the set is now empty; the worker is told to
  quit, waited for with a bound of 100 milliseconds and then deleted; and the new size of
  the set is logged last.
\<close>

theorem removeClient_removes_and_unsubscribes:
  assumes "VncServer_new listen port win = Inr s0"
    and "thread \<in> set (m_threads (exec ops s0))"
  shows "(let s = exec ops s0; s' = removeClient (Some (QThread_object thread)) s in
     m_threads s' = remove1 thread (m_threads s) \<and>
     thread \<notin> set (m_threads s') \<and>
     subscribed s \<and>
     (\<not> subscribed s' \<longleftrightarrow> m_threads s' = []) \<and>
     heap s' thread = None \<and>
     trace s' =
       trace s @ [Thread_quit thread, Thread_wait thread 100, Thread_delete thread,
                  Log_detached (length (m_threads s'))])"
  unfolding Let_def
  by (rule removeClient_inv_effects)
    (simp_all add: assms(2) server_inv_exec [OF server_inv_new [OF assms(1)]])

theorem removeClient_removes_and_unsubscribes_witness:
  "VncServer_new (Some 5999) 5999 (Some example_window) = Inr example_server \<and>
   0 \<in> set (m_threads (exec [AddClient 11 None, AddClient 12 None] example_server)) \<and>
   m_threads (removeClient (Some (QThread_object 0))
     (exec [AddClient 11 None, AddClient 12 None] example_server)) = [1] \<and>
   subscribed (removeClient (Some (QThread_object 0))
     (exec [AddClient 11 None, AddClient 12 None] example_server)) \<and>
   trace (removeClient (Some (QThread_object 0))
     (exec [AddClient 11 None, AddClient 12 None] example_server)) =
     [Log_created 5999, Window_update, Thread_start 0, Thread_start 1,
      Thread_quit 0, Thread_wait 0 100, Thread_delete 0, Log_detached 1] \<and>
   1 \<in> set (m_threads (exec [AddClient 11 None, AddClient 12 None,
     RemoveClient (Some (QThread_object 0))] example_server)) \<and>
   m_threads (removeClient (Some (QThread_object 1))
     (exec [AddClient 11 None, AddClient 12 None, RemoveClient (Some (QThread_object 0))]
       example_server)) = [] \<and>
   \<not> subscribed (removeClient (Some (QThread_object 1))
     (exec [AddClient 11 None, AddClient 12 None, RemoveClient (Some (QThread_object 0))]
       example_server)) \<and>
   frameSwapped_connections (removeClient (Some (QThread_object 1))
     (exec [AddClient 11 None, AddClient 12 None, RemoveClient (Some (QThread_object 0))]
       example_server)) = []"
proof -
  have h: "0 \<in> set (m_threads (exec [AddClient 11 None, AddClient 12 None] example_server))"
    by (simp add: eval_defs)
  have h': "1 \<in> set (m_threads (exec [AddClient 11 None, AddClient 12 None,
     RemoveClient (Some (QThread_object 0))] example_server))"
    by (simp add: eval_defs)
  show ?thesis
    using removeClient_removes_and_unsubscribes [OF example_server_new h]
      removeClient_removes_and_unsubscribes [OF example_server_new h'] h h'
    by (simp add: eval_defs)
qed

text \<open>
  C7. \<^verbatim>\<open>ClientThread::markDirty\<close> on a worker whose \<^verbatim>\<open>m_client\<close> is null, as it is after
  construction and again once \<^verbatim>\<open>run\<close> has left its event loop, makes no call at all, and
  the notification of such a worker returns normally with nothing but the call itself
  recorded. When \<^verbatim>\<open>m_client\<close> points to the handler, as it does while \<^verbatim>\<open>run\<close> is in its
  event loop, the call goes on to the handler's \<^verbatim>\<open>markDirty\<close>.
\<close>

theorem markDirty_without_handler:
  "ClientThread_markDirty (ClientThread_new fd) = [] \<and>
   ClientThread_markDirty (ClientThread_run_leave th) = [] \<and>
   ClientThread_markDirty (ClientThread_run_enter th) = [Client_markDirty (m_socketDescriptor th)] \<and>
   (m_client th = None \<longrightarrow>
      ClientThread_markDirty th = [] \<and>
      (heap s thread = Some th \<longrightarrow> notify_threads [thread] s = Inr (emit [Thread_markDirty thread] s))) \<and>
   (\<forall>client. m_client th = Some client \<longrightarrow>
      ClientThread_markDirty th = [Client_markDirty (vc_socketDescriptor client)])"
  by (simp add: ClientThread_markDirty_def ClientThread_new_def ClientThread_run_leave_def
      ClientThread_run_enter_def Let_def)

theorem markDirty_without_handler_witness:
  "heap two_clients (Suc 0) =
     Some \<lparr>m_socketDescriptor = 12, m_client = None, thread_finished = [Slot_removeClient]\<rparr> \<and>
   notify_threads [Suc 0] two_clients = Inr (emit [Thread_markDirty (Suc 0)] two_clients) \<and>
   ClientThread_markDirty
     \<lparr>m_socketDescriptor = 12, m_client = None, thread_finished = [Slot_removeClient]\<rparr> = [] \<and>
   heap two_clients 0 = Some (ClientThread_run_enter
     \<lparr>m_socketDescriptor = 11, m_client = None, thread_finished = [Slot_removeClient]\<rparr>) \<and>
   ClientThread_markDirty (ClientThread_run_enter
     \<lparr>m_socketDescriptor = 11, m_client = None, thread_finished = [Slot_removeClient]\<rparr>) =
     [Client_markDirty 11] \<and>
   ClientThread_markDirty (ClientThread_run_leave (ClientThread_run_enter
     \<lparr>m_socketDescriptor = 11, m_client = None, thread_finished = [Slot_removeClient]\<rparr>)) = []"
  using markDirty_without_handler [of 12
      "\<lparr>m_socketDescriptor = 12, m_client = None, thread_finished = [Slot_removeClient]\<rparr>"
      two_clients "Suc 0"]
    markDirty_without_handler [of 11
      "\<lparr>m_socketDescriptor = 11, m_client = None, thread_finished = [Slot_removeClient]\<rparr>"
      two_clients 0]
    markDirty_without_handler [of 11 "ClientThread_run_enter
      \<lparr>m_socketDescriptor = 11, m_client = None, thread_finished = [Slot_removeClient]\<rparr>"
      two_clients 0]
  by (simp add: two_clients_state ClientThread_run_enter_def)

lemma inert_server_new: "VncServer_new None 5999 (Some example_window) = Inr inert_server"
  by (simp add: inert_server_def VncServer_new_def example_window_def)

text \<open>
  C8 as stated fails: when \<^verbatim>\<open>listen\<close> fails the constructor writes no log line, so the
  failure is not reported once but not at all.
\<close>

theorem listen_failure_not_logged:
  "VncServer_new None 5999 (Some example_window) = Inr inert_server \<and>
   filter is_log (trace inert_server) = [] \<and>
   length (filter is_log (trace inert_server)) \<noteq> 1"
  by (simp add: inert_server_def VncServer_new_def example_window_def)

lemma tcp_serverPort_exec [simp]: "tcp_serverPort (exec ops s) = tcp_serverPort s"
  by (induction ops s rule: exec.induct)
    (simp_all add: addClient_def removeClient_def Let_def emit_def connect_frameSwapped_def
      disconnect_grab_def modify_thread_def split: option.splits qobject.splits)

lemma no_connection_arrives:
  "tcp_serverPort s = None \<Longrightarrow> foldl connection_arrives s fds = s"
  by (induction fds) (simp_all add: connection_arrives_def)

text \<open>
  C8, amended. The constructor logs one line when \<^verbatim>\<open>listen\<close> succeeds and nothing when it
  fails. A failure of \<^verbatim>\<open>listen\<close> does not make the constructor fail. No later call changes
  whether the socket listens, and after a failure no connection ever arrives at the
  server.
\<close>

theorem listen_outcome:
  assumes "VncServer_new listen port win = Inr s0"
  shows "trace s0 = (if listen = None then [] else [Log_created port]) \<and>
         \<not> isl (VncServer_new None port win) \<and>
         tcp_serverPort (exec ops s0) = listen \<and>
         (listen = None \<longrightarrow> foldl connection_arrives (exec ops s0) fds = exec ops s0)"
proof -
  have "trace s0 = (if listen = None then [] else [Log_created port])"
    and "\<not> isl (VncServer_new None port win)" and "tcp_serverPort s0 = listen"
    using assms by (auto simp: VncServer_new_def split: option.splits if_splits)
  then show ?thesis by (simp add: no_connection_arrives)
qed

theorem listen_outcome_witness:
  "VncServer_new None 5999 (Some example_window) = Inr inert_server \<and>
   trace inert_server = [] \<and>
   tcp_serverPort (exec [AddClient 11 None] inert_server) = None \<and>
   foldl connection_arrives (exec [] inert_server) [11, 12] = exec [] inert_server \<and>
   VncServer_new (Some 5999) 5999 (Some example_window) = Inr example_server \<and>
   trace example_server = [Log_created 5999]"
  using listen_outcome [OF inert_server_new, of "[AddClient 11 None]" "[]"]
    listen_outcome [OF inert_server_new, of "[]" "[11, 12]"]
    listen_outcome [OF example_server_new, of "[]" "[]"]
    inert_server_new example_server_new
  by simp

section \<open>Capturing the window\<close>

lemma heap_emit [simp]: "heap (emit es s) = heap s"
  and m_threads_emit [simp]: "m_threads (emit es s) = m_threads s"
  and m_frameBuffer_emit [simp]: "m_frameBuffer (emit es s) = m_frameBuffer s"
  and m_window_emit [simp]: "m_window (emit es s) = m_window s"
  and trace_emit [simp]: "trace (emit es s) = trace s @ es"
  by (simp_all add: emit_def)

lemma capture_keeps_workers [simp]:
  "heap (resize_frameBuffer w s) = heap s"
  "m_threads (resize_frameBuffer w s) = m_threads s"
  "heap (grab_frameBuffer w s) = heap s"
  "m_threads (grab_frameBuffer w s) = m_threads s"
  by (simp_all add: grab_frameBuffer_def resize_frameBuffer_def Let_def)

lemma emit_emit: "emit es' (emit es s) = emit (es @ es') s"
  by (simp add: emit_def)

lemma markDirty_calls_emit [simp]: "markDirty_calls (emit es s) = markDirty_calls s"
  by (simp add: markDirty_calls_def fun_eq_iff)

lemma notify_threads_live:
  "\<forall>t \<in> set threads. heap s t \<noteq> None \<Longrightarrow>
     notify_threads threads s = Inr (emit (concat (map (markDirty_calls s) threads)) s)"
proof (induction threads arbitrary: s)
  case Nil
  then show ?case by (simp add: emit_def)
next
  case (Cons t threads)
  then obtain th where th: "heap s t = Some th" by auto
  have "notify_threads threads (emit (Thread_markDirty t # ClientThread_markDirty th) s) =
      Inr (emit (concat (map (markDirty_calls s) threads))
        (emit (Thread_markDirty t # ClientThread_markDirty th) s))"
    using Cons.IH [of "emit (Thread_markDirty t # ClientThread_markDirty th) s"] Cons.prems
    by simp
  moreover have "markDirty_calls s t = Thread_markDirty t # ClientThread_markDirty th"
    using th by (simp add: markDirty_calls_def)
  ultimately show ?case using th by (simp add: emit_emit)
qed

lemma filter_markDirty_calls:
  "\<forall>t \<in> set threads. heap s t \<noteq> None \<Longrightarrow>
     filter is_markDirty (concat (map (markDirty_calls s) threads)) = map Thread_markDirty threads"
  by (induction threads)
    (auto simp: markDirty_calls_def is_markDirty_def ClientThread_markDirty_def
      split: option.splits)

lemma grabWindow_result:
  "img_size (grabWindow w fb) = img_size fb \<and> img_pixels (grabWindow w fb) = Frame (win_frame w)"
  by (simp add: grabWindow_def qt_gl_read_framebuffer_def convertTo_def Let_def)

lemma updateFrameBuffer_live:
  assumes "m_window s = Some w" and "\<forall>t \<in> set (m_threads s). heap s t \<noteq> None"
  shows "updateFrameBuffer s =
     Inr (emit (concat (map (markDirty_calls s) (m_threads s)))
       (emit [Mutex_unlock] (grab_frameBuffer w (resize_frameBuffer w (emit [Mutex_lock] s)))))"
proof -
  let ?s = "emit [Mutex_unlock] (grab_frameBuffer w (resize_frameBuffer w (emit [Mutex_lock] s)))"
  have calls: "markDirty_calls ?s = markDirty_calls s"
    by (simp add: markDirty_calls_def fun_eq_iff)
  have "notify_threads (m_threads ?s) ?s =
      Inr (emit (concat (map (markDirty_calls ?s) (m_threads ?s))) ?s)"
    by (rule notify_threads_live) (simp add: assms(2))
  then show ?thesis
    using assms(1) calls by (simp add: updateFrameBuffer_def Let_def)
qed

lemma server_inv_emit [simp]: "server_inv (emit es s) = server_inv s"
  by (simp add: server_inv_def emit_def split: option.splits)

lemma server_inv_capture_writes:
  "server_inv (resize_frameBuffer w s) = server_inv s"
  "server_inv (grab_frameBuffer w s) = server_inv s"
  by (simp_all add: server_inv_def resize_frameBuffer_def grab_frameBuffer_def Let_def emit_def
      split: option.splits)

text \<open>A server reached from the constructor can always capture: its window is there and
  the workers in its set are live. The capture keeps the invariant, and so does a worker
  that enters or leaves its event loop.\<close>

lemma server_inv_updateFrameBuffer:
  assumes "server_inv s"
  shows "\<exists>s'. updateFrameBuffer s = Inr s' \<and> server_inv s'"
proof -
  from assms obtain w where w: "m_window s = Some w" by (auto simp: server_inv_def)
  from assms have live: "\<forall>t \<in> set (m_threads s). heap s t \<noteq> None"
    by (simp add: server_inv_def)
  show ?thesis
    using updateFrameBuffer_live [OF w live] assms by (simp add: server_inv_capture_writes)
qed

lemma server_inv_modify_thread: "server_inv s \<Longrightarrow> server_inv (modify_thread thread f s)"
  by (auto simp: server_inv_def modify_thread_def split: option.splits)

lemma qRound_of_int [simp]: "qRound (of_int n) = n"
  unfolding qRound_def by (rule floor_unique) simp_all

lemma QSize_times_one [simp]: "QSize_times sz 1 = sz"
  by (simp add: QSize_times_def)

lemma example_size:
  "QSize_times (win_size example_window) (win_devicePixelRatio example_window) = (800, 600)"
  by (simp add: example_window_def)

lemma two_clients_live: "\<forall>t \<in> set (m_threads two_clients). heap two_clients t \<noteq> None"
  by (simp add: two_clients_state)



text \<open>
  C5. In \<^verbatim>\<open>updateFrameBuffer\<close> the mutex is unlocked right after the grab and not before,
  no \<^verbatim>\<open>markDirty\<close> is called before the unlock, and after it \<^verbatim>\<open>markDirty\<close> is called
  on the workers of \<^verbatim>\<open>m_threads\<close>, each of them once, in order, and on nothing else; with
  an empty set no call follows the unlock.
\<close>

theorem updateFrameBuffer_notifies_after_unlock:
  assumes "m_window s = Some w" and "\<forall>t \<in> set (m_threads s). heap s t \<noteq> None"
  shows "\<exists>s' writes.
     updateFrameBuffer s = Inr s' \<and>
     trace s' = trace s @ Mutex_lock # writes @ [FrameBuffer_grab, Mutex_unlock] @
       concat (map (markDirty_calls s) (m_threads s)) \<and>
     Mutex_unlock \<notin> set writes \<and>
     filter is_markDirty (Mutex_lock # writes @ [FrameBuffer_grab, Mutex_unlock]) = [] \<and>
     filter is_markDirty (concat (map (markDirty_calls s) (m_threads s))) =
       map Thread_markDirty (m_threads s) \<and>
     (m_threads s = [] \<longrightarrow> concat (map (markDirty_calls s) (m_threads s)) = [])"
proof -
  let ?s' = "emit (concat (map (markDirty_calls s) (m_threads s)))
       (emit [Mutex_unlock] (grab_frameBuffer w (resize_frameBuffer w (emit [Mutex_lock] s))))"
  let ?writes = "if QSize_times (win_size w) (win_devicePixelRatio w) \<noteq> img_size (m_frameBuffer s)
        then [FrameBuffer_alloc (QSize_times (win_size w) (win_devicePixelRatio w))] else []"
  have "updateFrameBuffer s = Inr ?s'" using assms by (rule updateFrameBuffer_live)
  moreover have "trace ?s' = trace s @ Mutex_lock # ?writes @ [FrameBuffer_grab, Mutex_unlock] @
       concat (map (markDirty_calls s) (m_threads s))"
    by (simp add: grab_frameBuffer_def resize_frameBuffer_def Let_def)
  moreover have "Mutex_unlock \<notin> set ?writes" by simp
  moreover have "filter is_markDirty (Mutex_lock # ?writes @ [FrameBuffer_grab, Mutex_unlock]) = []"
    by (simp add: is_markDirty_def)
  moreover have "filter is_markDirty (concat (map (markDirty_calls s) (m_threads s))) =
       map Thread_markDirty (m_threads s)"
    using assms(2) by (rule filter_markDirty_calls)
  ultimately show ?thesis by (intro exI [of _ ?s'] exI [of _ ?writes]) simp
qed

theorem updateFrameBuffer_notifies_after_unlock_witness:
  "m_window two_clients = Some example_window \<and>
   list_all (\<lambda>t. heap two_clients t \<noteq> None) (m_threads two_clients) \<and>
   m_threads two_clients = [0, 1] \<and>
   \<not> isl (updateFrameBuffer two_clients) \<and>
   drop 4 (trace (projr (updateFrameBuffer two_clients))) =
     [Mutex_lock, FrameBuffer_alloc (800, 600), FrameBuffer_grab, Mutex_unlock,
      Thread_markDirty 0, Client_markDirty 11, Thread_markDirty 1]"
proof -
  have "updateFrameBuffer two_clients =
     Inr (emit (concat (map (markDirty_calls two_clients) (m_threads two_clients)))
       (emit [Mutex_unlock] (grab_frameBuffer example_window
         (resize_frameBuffer example_window (emit [Mutex_lock] two_clients)))))"
    using two_clients_state(1) two_clients_live by (rule updateFrameBuffer_live)
  then show ?thesis
    using updateFrameBuffer_notifies_after_unlock [OF two_clients_state(1) two_clients_live]
    by (simp add: two_clients_state example_size markDirty_calls_def ClientThread_markDirty_def
        grab_frameBuffer_def resize_frameBuffer_def Let_def)
qed

section \<open>Readers and the capture never overlap\<close>

lemma m_frameBuffer_addClient [simp]: "m_frameBuffer (addClient fd sender s) = m_frameBuffer s"
  by (simp add: addClient_def Let_def emit_def connect_frameSwapped_def modify_thread_def
      split: option.splits qobject.splits)

lemma m_frameBuffer_removeClient [simp]: "m_frameBuffer (removeClient sender s) = m_frameBuffer s"
  by (simp add: removeClient_def Let_def emit_def disconnect_grab_def
      split: option.splits qobject.splits)

lemma m_frameBuffer_notify_threads:
  "notify_threads threads s = Inr s' \<Longrightarrow> m_frameBuffer s' = m_frameBuffer s"
  by (induction threads arbitrary: s) (auto split: option.splits)

lemma fb_inv_system_of: "fb_inv (system_of s)"
  by (simp add: fb_inv_def system_of_def)

lemma fb_inv_crashed [simp]: "fb_inv (sys\<lparr>crashed := b\<rparr>) = fb_inv sys"
  by (simp add: fb_inv_def)

lemma fb_invI:
  assumes "released sys \<noteq> []"
    and "set (returned sys) \<subseteq> set (released sys)"
    and "\<forall>img \<in> set (tl (released sys)). img_pixels img \<noteq> Uninitialised"
    and "in_critical_section (capture sys) = (m_frameBufferMutex sys = Some Capture_thread)"
    and "\<not> in_critical_section (capture sys) \<Longrightarrow>
           m_frameBuffer (server sys) = last (released sys)"
    and "capture sys = Capture_grabbed \<Longrightarrow>
           img_pixels (m_frameBuffer (server sys)) \<noteq> Uninitialised"
    and "\<And>r. (reader sys r = Reader_idle) = (m_frameBufferMutex sys \<noteq> Some (Reader_thread r))"
    and "\<And>r fb. reader sys r = Reader_copied fb \<Longrightarrow> fb = last (released sys)"
  shows "fb_inv sys"
  unfolding fb_inv_def using assms by blast

lemma fb_inv_released:
  assumes "fb_inv sys"
  shows "released sys \<noteq> []"
    and "set (returned sys) \<subseteq> set (released sys)"
    and "\<forall>img \<in> set (tl (released sys)). img_pixels img \<noteq> Uninitialised"
  using assms unfolding fb_inv_def by blast+

lemma fb_inv_capture:
  assumes "fb_inv sys"
  shows "in_critical_section (capture sys) = (m_frameBufferMutex sys = Some Capture_thread)"
    and "\<not> in_critical_section (capture sys) \<Longrightarrow>
           m_frameBuffer (server sys) = last (released sys)"
    and "capture sys = Capture_grabbed \<Longrightarrow>
           img_pixels (m_frameBuffer (server sys)) \<noteq> Uninitialised"
  using assms unfolding fb_inv_def by blast+

lemma fb_inv_reader:
  assumes "fb_inv sys"
  shows "(reader sys r = Reader_idle) = (m_frameBufferMutex sys \<noteq> Some (Reader_thread r))"
    and "reader sys r = Reader_copied fb \<Longrightarrow> fb = last (released sys)"
  using assms unfolding fb_inv_def by blast+

text \<open>A step that leaves the buffer, the mutex and the program counters alone keeps the
  invariant.\<close>

lemma fb_inv_frame:
  assumes "fb_inv sys"
    and "released sys' = released sys" and "returned sys' = returned sys"
    and "capture sys' = capture sys" and "reader sys' = reader sys"
    and "m_frameBufferMutex sys' = m_frameBufferMutex sys"
    and "m_frameBuffer (server sys') = m_frameBuffer (server sys)"
  shows "fb_inv sys'"
  using assms unfolding fb_inv_def by simp

lemma fb_inv_reader_step:
  assumes inv: "fb_inv sys"
  shows "fb_inv (reader_step r sys)"
proof (cases "reader sys r")
  case Reader_idle
  show ?thesis
  proof (cases "m_frameBufferMutex sys")
    case None
    have idle: "reader sys r' = Reader_idle" for r'
      using fb_inv_reader(1) [OF inv, of r'] None by simp
    have nc: "\<not> in_critical_section (capture sys)"
      using fb_inv_capture(1) [OF inv] None by simp
    have eq: "reader_step r sys =
        sys\<lparr>server := emit [Mutex_lock] (server sys),
            m_frameBufferMutex := Some (Reader_thread r),
            reader := (reader sys)(r := Reader_locked)\<rparr>"
      using Reader_idle None by (simp add: reader_step_def)
    show ?thesis
      unfolding eq
    proof (rule fb_invI)
      fix r' fb
      assume "reader (sys\<lparr>server := emit [Mutex_lock] (server sys),
            m_frameBufferMutex := Some (Reader_thread r),
            reader := (reader sys)(r := Reader_locked)\<rparr>) r' = Reader_copied fb"
      then show "fb = last (released (sys\<lparr>server := emit [Mutex_lock] (server sys),
            m_frameBufferMutex := Some (Reader_thread r),
            reader := (reader sys)(r := Reader_locked)\<rparr>))"
        using idle [of r'] by (simp split: if_splits)
    qed (use fb_inv_released [OF inv] fb_inv_capture [OF inv] nc idle in simp_all)
  next
    case (Some owner)
    with inv Reader_idle show ?thesis by (simp add: reader_step_def)
  qed
next
  case Reader_locked
  have m: "m_frameBufferMutex sys = Some (Reader_thread r)"
    using fb_inv_reader(1) [OF inv, of r] Reader_locked by simp
  have nc: "\<not> in_critical_section (capture sys)"
    using fb_inv_capture(1) [OF inv] m by simp
  have cur: "m_frameBuffer (server sys) = last (released sys)"
    using fb_inv_capture(2) [OF inv] nc by simp
  have eq: "reader_step r sys =
      sys\<lparr>server := emit [FrameBuffer_copy] (server sys),
          reader := (reader sys)(r := Reader_copied (m_frameBuffer (server sys)))\<rparr>"
    using Reader_locked by (simp add: reader_step_def)
  show ?thesis
    unfolding eq
  proof (rule fb_invI)
    fix r' fb
    assume "reader (sys\<lparr>server := emit [FrameBuffer_copy] (server sys),
          reader := (reader sys)(r := Reader_copied (m_frameBuffer (server sys)))\<rparr>) r' =
        Reader_copied fb"
    then show "fb = last (released (sys\<lparr>server := emit [FrameBuffer_copy] (server sys),
          reader := (reader sys)(r := Reader_copied (m_frameBuffer (server sys)))\<rparr>))"
      using fb_inv_reader(2) [OF inv, of r' fb] cur by (simp split: if_splits)
  next
    fix r'
    show "(reader (sys\<lparr>server := emit [FrameBuffer_copy] (server sys),
          reader := (reader sys)(r := Reader_copied (m_frameBuffer (server sys)))\<rparr>) r' =
        Reader_idle) =
      (m_frameBufferMutex (sys\<lparr>server := emit [FrameBuffer_copy] (server sys),
          reader := (reader sys)(r := Reader_copied (m_frameBuffer (server sys)))\<rparr>) \<noteq>
        Some (Reader_thread r'))"
      using fb_inv_reader(1) [OF inv, of r'] m by simp
  qed (use fb_inv_released [OF inv] fb_inv_capture [OF inv] nc cur in simp_all)
next
  case (Reader_copied fb)
  have m: "m_frameBufferMutex sys = Some (Reader_thread r)"
    using fb_inv_reader(1) [OF inv, of r] Reader_copied by simp
  have nc: "\<not> in_critical_section (capture sys)"
    using fb_inv_capture(1) [OF inv] m by simp
  have others: "reader sys r' = Reader_idle" if "r' \<noteq> r" for r'
    using fb_inv_reader(1) [OF inv, of r'] m that by simp
  have "fb = last (released sys)"
    using Reader_copied by (rule fb_inv_reader(2) [OF inv])
  then have fb: "fb \<in> set (released sys)"
    using fb_inv_released(1) [OF inv] by simp
  have eq: "reader_step r sys =
      sys\<lparr>server := emit [Mutex_unlock] (server sys),
          m_frameBufferMutex := None,
          reader := (reader sys)(r := Reader_idle),
          returned := returned sys @ [fb]\<rparr>"
    using Reader_copied by (simp add: reader_step_def)
  show ?thesis
    unfolding eq
  proof (rule fb_invI)
    fix r' fb'
    assume "reader (sys\<lparr>server := emit [Mutex_unlock] (server sys),
          m_frameBufferMutex := None,
          reader := (reader sys)(r := Reader_idle),
          returned := returned sys @ [fb]\<rparr>) r' = Reader_copied fb'"
    then show "fb' = last (released (sys\<lparr>server := emit [Mutex_unlock] (server sys),
          m_frameBufferMutex := None,
          reader := (reader sys)(r := Reader_idle),
          returned := returned sys @ [fb]\<rparr>))"
      using others [of r'] by (simp split: if_splits)
  next
    fix r'
    show "(reader (sys\<lparr>server := emit [Mutex_unlock] (server sys),
          m_frameBufferMutex := None,
          reader := (reader sys)(r := Reader_idle),
          returned := returned sys @ [fb]\<rparr>) r' = Reader_idle) =
      (m_frameBufferMutex (sys\<lparr>server := emit [Mutex_unlock] (server sys),
          m_frameBufferMutex := None,
          reader := (reader sys)(r := Reader_idle),
          returned := returned sys @ [fb]\<rparr>) \<noteq> Some (Reader_thread r'))"
      using others [of r'] by simp
  qed (use fb_inv_released [OF inv] fb_inv_capture [OF inv] nc fb in simp_all)
qed

lemma fb_inv_capture_step:
  assumes inv: "fb_inv sys"
  shows "fb_inv (capture_step sys)"
proof (cases "capture sys")
  case Capture_idle
  show ?thesis
  proof (cases "m_frameBufferMutex sys")
    case None
    have idle: "reader sys r = Reader_idle" for r
      using fb_inv_reader(1) [OF inv, of r] None by simp
    have eq: "capture_step sys =
        sys\<lparr>server := emit [Mutex_lock] (server sys),
            m_frameBufferMutex := Some Capture_thread,
            capture := Capture_locked\<rparr>"
      using Capture_idle None by (simp add: capture_step_def)
    show ?thesis
      unfolding eq
      by (rule fb_invI) (use fb_inv_released [OF inv] idle in simp_all)
  next
    case (Some owner)
    with inv Capture_idle show ?thesis by (simp add: capture_step_def)
  qed
next
  case Capture_locked
  have m: "m_frameBufferMutex sys = Some Capture_thread"
    using fb_inv_capture(1) [OF inv] Capture_locked by simp
  show ?thesis
  proof (cases "m_window (server sys)")
    case None
    with inv Capture_locked show ?thesis by (simp add: capture_step_def)
  next
    case (Some w)
    have eq: "capture_step sys =
        sys\<lparr>server := resize_frameBuffer w (server sys), capture := Capture_sized\<rparr>"
      using Capture_locked Some by (simp add: capture_step_def)
    show ?thesis
      unfolding eq
      by (rule fb_invI)
        (use fb_inv_released [OF inv] fb_inv_reader [OF inv] m in simp_all)
  qed
next
  case Capture_sized
  have m: "m_frameBufferMutex sys = Some Capture_thread"
    using fb_inv_capture(1) [OF inv] Capture_sized by simp
  show ?thesis
  proof (cases "m_window (server sys)")
    case None
    with inv Capture_sized show ?thesis by (simp add: capture_step_def)
  next
    case (Some w)
    have eq: "capture_step sys =
        sys\<lparr>server := grab_frameBuffer w (server sys), capture := Capture_grabbed\<rparr>"
      using Capture_sized Some by (simp add: capture_step_def)
    show ?thesis
      unfolding eq
      by (rule fb_invI)
        (use fb_inv_released [OF inv] fb_inv_reader [OF inv] m in
          \<open>simp_all add: grab_frameBuffer_def grabWindow_result\<close>)
  qed
next
  case Capture_grabbed
  have m: "m_frameBufferMutex sys = Some Capture_thread"
    using fb_inv_capture(1) [OF inv] Capture_grabbed by simp
  have idle: "reader sys r = Reader_idle" for r
    using fb_inv_reader(1) [OF inv, of r] m by simp
  have written: "img_pixels (m_frameBuffer (server sys)) \<noteq> Uninitialised"
    using fb_inv_capture(3) [OF inv] Capture_grabbed by simp
  have sub: "set (returned sys) \<subseteq> insert (m_frameBuffer (server sys)) (set (released sys))"
    using fb_inv_released(2) [OF inv] by auto
  have eq: "capture_step sys =
      sys\<lparr>server := emit [Mutex_unlock] (server sys),
          m_frameBufferMutex := None,
          capture := Capture_unlocked,
          released := released sys @ [m_frameBuffer (server sys)]\<rparr>"
    using Capture_grabbed by (simp add: capture_step_def)
  show ?thesis
    unfolding eq
    by (rule fb_invI)
      (use fb_inv_released(1,3) [OF inv] idle written sub in simp_all)
next
  case Capture_unlocked
  have m: "m_frameBufferMutex sys \<noteq> Some Capture_thread"
    using fb_inv_capture(1) [OF inv] Capture_unlocked by simp
  have cur: "m_frameBuffer (server sys) = last (released sys)"
    using fb_inv_capture(2) [OF inv] Capture_unlocked by simp
  show ?thesis
  proof (cases "notify_threads (m_threads (server sys)) (server sys)")
    case (Inl e)
    with inv Capture_unlocked show ?thesis by (simp add: capture_step_def)
  next
    case (Inr s')
    then have same: "m_frameBuffer s' = m_frameBuffer (server sys)"
      by (rule m_frameBuffer_notify_threads)
    have eq: "capture_step sys = sys\<lparr>server := s', capture := Capture_idle\<rparr>"
      using Capture_unlocked Inr by (simp add: capture_step_def)
    show ?thesis
      unfolding eq
      by (rule fb_invI)
        (use fb_inv_released [OF inv] fb_inv_reader [OF inv] m cur same in simp_all)
  qed
qed

lemma fb_inv_step:
  assumes inv: "fb_inv sys"
  shows "fb_inv (step sys a)"
proof (cases "crashed sys")
  case True
  with inv show ?thesis by (simp add: step_def)
next
  case False
  show ?thesis
  proof (cases a)
    case Capture_step
    with inv False show ?thesis by (simp add: step_def fb_inv_capture_step)
  next
    case (Reader_step r)
    with inv False show ?thesis by (simp add: step_def fb_inv_reader_step)
  next
    case (Window_change w)
    have "fb_inv (case m_window (server sys) of None \<Rightarrow> sys
        | Some _ \<Rightarrow> sys\<lparr>server := (server sys)\<lparr>m_window := Some w\<rparr>\<rparr>)"
      by (rule fb_inv_frame [OF inv]) (simp_all split: option.splits)
    with Window_change False show ?thesis by (simp add: step_def)
  next
    case (Server_call c)
    have "fb_inv (sys\<lparr>server := exec [c] (server sys)\<rparr>)"
      by (rule fb_inv_frame [OF inv]) (cases c; simp)+
    with Server_call False show ?thesis by (simp add: step_def)
  qed
qed

lemma fb_inv_run: "fb_inv sys \<Longrightarrow> fb_inv (run acts sys)"
  unfolding run_def by (induction acts arbitrary: sys) (simp_all add: fb_inv_step)

lemma released_written:
  assumes "fb_inv sys" and "img \<in> set (released sys)"
  shows "img = hd (released sys) \<or> img_pixels img \<noteq> Uninitialised"
proof (cases "released sys")
  case Nil
  with assms(2) show ?thesis by simp
next
  case (Cons a list)
  with fb_inv_released(3) [OF assms(1)] assms(2) show ?thesis by auto
qed

lemma hd_released_step [simp]: "released sys \<noteq> [] \<Longrightarrow> hd (released (step sys a)) = hd (released sys)"
  by (cases a)
    (auto simp: step_def capture_step_def reader_step_def
      split: capture_pc.splits reader_pc.splits option.splits sum.splits)

lemma released_step_nonempty [simp]: "released sys \<noteq> [] \<Longrightarrow> released (step sys a) \<noteq> []"
  by (cases a)
    (auto simp: step_def capture_step_def reader_step_def
      split: capture_pc.splits reader_pc.splits option.splits sum.splits)

lemma hd_released_run:
  "released sys \<noteq> [] \<Longrightarrow> released (run acts sys) \<noteq> [] \<and> hd (released (run acts sys)) = hd (released sys)"
  unfolding run_def by (induction acts arbitrary: sys) simp_all

lemma returned_step: "\<exists>more. returned (step sys a) = returned sys @ more"
  by (cases a)
    (auto simp: step_def capture_step_def reader_step_def
      split: capture_pc.splits reader_pc.splits option.splits sum.splits)

lemma returned_run: "\<exists>more. returned (run acts sys) = returned sys @ more"
proof (induction acts arbitrary: sys)
  case Nil
  then show ?case by (simp add: run_def)
next
  case (Cons a acts)
  from Cons.IH [of "step sys a"] obtain more where
    "returned (run acts (step sys a)) = returned (step sys a) @ more" by blast
  moreover from returned_step [of sys a] obtain more' where
    "returned (step sys a) = returned sys @ more'" by blast
  ultimately show ?case by (simp add: run_def)
qed

lemma run_append: "run (acts @ later) sys = run later (run acts sys)"
  by (simp add: run_def)

lemma returned_kept:
  "take (length (returned (run acts sys))) (returned (run (acts @ later) sys)) =
     returned (run acts sys)"
  using returned_run [of later "run acts sys"] by (auto simp: run_append)

lemma capture_keeps_window [simp]:
  "m_window (resize_frameBuffer w s) = m_window s"
  "m_window (grab_frameBuffer w s) = m_window s"
  by (simp_all add: grab_frameBuffer_def resize_frameBuffer_def Let_def)

text \<open>Five steps of the capture with nothing in between are one call of
  \<^verbatim>\<open>updateFrameBuffer\<close>, and three steps of a reader are one call of \<^verbatim>\<open>frameBuffer\<close>.\<close>

lemma capture_steps_updateFrameBuffer:
  assumes "updateFrameBuffer s = Inr s'"
  shows "run [Capture_step, Capture_step, Capture_step, Capture_step, Capture_step] (system_of s) =
     (system_of s)\<lparr>server := s', released := [m_frameBuffer s, m_frameBuffer s']\<rparr>"
proof -
  from assms obtain w where w: "m_window s = Some w"
    by (auto simp: updateFrameBuffer_def split: option.splits)
  let ?g = "emit [Mutex_unlock] (grab_frameBuffer w (resize_frameBuffer w (emit [Mutex_lock] s)))"
  from assms w have n: "notify_threads (m_threads ?g) ?g = Inr s'"
    by (simp add: updateFrameBuffer_def Let_def)
  then have "m_frameBuffer s' = m_frameBuffer ?g" by (rule m_frameBuffer_notify_threads)
  with n w show ?thesis
    by (simp add: run_def step_def capture_step_def system_of_def)
qed

lemma reader_steps_frameBuffer:
  "run [Reader_step r, Reader_step r, Reader_step r] (system_of s) =
     (system_of s)\<lparr>server := snd (frameBuffer s), returned := [fst (frameBuffer s)]\<rparr>"
  by (simp add: run_def step_def reader_step_def system_of_def frameBuffer_def Let_def fun_eq_iff)

text \<open>
  C6. \<^verbatim>\<open>frameBuffer\<close> locks the mutex, copies \<^verbatim>\<open>m_frameBuffer\<close>, unlocks and returns the
  copy, leaving the buffer as it was. In every interleaving of captures, readers and other
  calls, a reader that has taken its copy holds the mutex while the capture is outside its
  critical section, the copy is the buffer as it stands, and every image returned is one
  the buffer held when the mutex was free: the initial one, or one a finished capture left,
  never the reallocated buffer that has not been filled yet. What was returned stays as it
  is whatever steps follow.
\<close>

theorem frameBuffer_copy_under_lock:
  "fst (frameBuffer s) = m_frameBuffer s \<and>
   m_frameBuffer (snd (frameBuffer s)) = m_frameBuffer s \<and>
   trace (snd (frameBuffer s)) = trace s @ [Mutex_lock, FrameBuffer_copy, Mutex_unlock] \<and>
   returned (run [Reader_step r, Reader_step r, Reader_step r] (system_of s)) =
     [fst (frameBuffer s)] \<and>
   set (returned (run acts (system_of s))) \<subseteq> set (released (run acts (system_of s))) \<and>
   (\<forall>img \<in> set (returned (run acts (system_of s))).
      img = m_frameBuffer s \<or> img_pixels img \<noteq> Uninitialised) \<and>
   (\<forall>r fb. reader (run acts (system_of s)) r = Reader_copied fb \<longrightarrow>
      m_frameBufferMutex (run acts (system_of s)) = Some (Reader_thread r) \<and>
      \<not> in_critical_section (capture (run acts (system_of s))) \<and>
      fb = m_frameBuffer (server (run acts (system_of s)))) \<and>
   take (length (returned (run acts (system_of s)))) (returned (run (acts @ later) (system_of s))) =
     returned (run acts (system_of s))"
proof -
  let ?sys = "run acts (system_of s)"
  have inv: "fb_inv ?sys" by (rule fb_inv_run [OF fb_inv_system_of])
  have seq: "fst (frameBuffer s) = m_frameBuffer s"
    "m_frameBuffer (snd (frameBuffer s)) = m_frameBuffer s"
    "trace (snd (frameBuffer s)) = trace s @ [Mutex_lock, FrameBuffer_copy, Mutex_unlock]"
    by (simp_all add: frameBuffer_def Let_def emit_def)
  have three: "returned (run [Reader_step r, Reader_step r, Reader_step r] (system_of s)) =
     [fst (frameBuffer s)]"
    by (simp add: run_def step_def reader_step_def system_of_def frameBuffer_def Let_def)
  have sub: "set (returned ?sys) \<subseteq> set (released ?sys)"
    by (rule fb_inv_released(2) [OF inv])
  have hd: "hd (released ?sys) = m_frameBuffer s"
    using hd_released_run [of "system_of s" acts] by (simp add: system_of_def)
  have wr: "\<forall>img \<in> set (returned ?sys). img = m_frameBuffer s \<or> img_pixels img \<noteq> Uninitialised"
    using released_written [OF inv] sub hd by auto
  have cp: "m_frameBufferMutex ?sys = Some (Reader_thread r') \<and>
      \<not> in_critical_section (capture ?sys) \<and> fb = m_frameBuffer (server ?sys)"
    if "reader ?sys r' = Reader_copied fb" for r' fb
  proof -
    have m: "m_frameBufferMutex ?sys = Some (Reader_thread r')"
      using fb_inv_reader(1) [OF inv, of r'] that by simp
    then have nc: "\<not> in_critical_section (capture ?sys)"
      using fb_inv_capture(1) [OF inv] by simp
    then have "m_frameBuffer (server ?sys) = last (released ?sys)"
      by (rule fb_inv_capture(2) [OF inv])
    with fb_inv_reader(2) [OF inv that] m nc show ?thesis by simp
  qed
  have kept: "take (length (returned ?sys)) (returned (run (acts @ later) (system_of s))) =
     returned ?sys"
    by (rule returned_kept)
  show ?thesis using seq three sub wr cp kept by blast
qed

theorem frameBuffer_copy_under_lock_witness:
  "returned (run [Capture_step, Reader_step 1, Capture_step, Capture_step, Reader_step 1,
       Capture_step, Reader_step 1, Reader_step 1, Reader_step 1, Capture_step]
       (system_of two_clients)) =
     [\<lparr>img_size = (800, 600), img_format = Format_RGB32, img_pixels = Frame 7\<rparr>] \<and>
   released (run [Capture_step, Reader_step 1, Capture_step, Capture_step, Reader_step 1,
       Capture_step, Reader_step 1, Reader_step 1, Reader_step 1, Capture_step]
       (system_of two_clients)) =
     [\<lparr>img_size = (0, 0), img_format = Format_Invalid, img_pixels = Uninitialised\<rparr>,
      \<lparr>img_size = (800, 600), img_format = Format_RGB32, img_pixels = Frame 7\<rparr>] \<and>
   reader (run [Capture_step, Reader_step 1, Capture_step, Capture_step, Reader_step 1]
       (system_of two_clients)) 1 = Reader_idle \<and>
   reader (run [Capture_step, Capture_step, Capture_step, Capture_step, Reader_step 1,
       Reader_step 1] (system_of two_clients)) 1 =
     Reader_copied \<lparr>img_size = (800, 600), img_format = Format_RGB32, img_pixels = Frame 7\<rparr> \<and>
   m_frameBufferMutex (run [Capture_step, Capture_step, Capture_step, Capture_step,
       Reader_step 1, Reader_step 1] (system_of two_clients)) = Some (Reader_thread 1)"
  using frameBuffer_copy_under_lock [of two_clients 1
      "[Capture_step, Reader_step 1, Capture_step, Capture_step, Reader_step 1,
       Capture_step, Reader_step 1, Reader_step 1, Reader_step 1, Capture_step]"]
    frameBuffer_copy_under_lock [of two_clients 1
      "[Capture_step, Capture_step, Capture_step, Capture_step, Reader_step 1, Reader_step 1]"]
  by (simp add: run_def step_def capture_step_def reader_step_def system_of_def
      two_clients_def eval_defs ClientThread_run_enter_def ClientThread_markDirty_def
      resize_frameBuffer_def grab_frameBuffer_def grabWindow_def qt_gl_read_framebuffer_def
      convertTo_def QImage_new_def)

end
